theory Spec2Isabelle
  imports Complex_Main
begin

section \<open>The embedding\<close>

subsection \<open>Angle helpers of \<open>src/mavextra/mymavextra.js\<close>\<close>

text \<open>
  The expression helpers that the log viewer installs on \<open>window\<close>. A JavaScript number
  is a binary64 floating-point number; a finite one is embedded as the \<^typ>\<open>real\<close> it
  denotes. Each function assigns \<open>ret\<close> once and then runs two \<open>if\<close> statements one
  after the other; the second test reads the value the first one may have changed, which
  the nested \<open>let\<close> keeps.

  The claims about \<open>angle_diff\<close> and \<open>wrap_180\<close> quantify over real numbers and compare
  two runs of the same arithmetic, so these two functions are embedded with the exact
  arithmetic of the reals. The claim about \<open>wrap_360\<close> speaks about the value of the
  result, so there \<open>ret -= 360\<close> and \<open>ret += 360\<close> round as JavaScript does.
\<close>

definition angle_diff :: "real \<Rightarrow> real \<Rightarrow> real" where
  "angle_diff angle1 angle2 =
     (let ret0 = angle1 - angle2;
          ret1 = (if ret0 > 180 then ret0 - 360 else ret0);
          ret2 = (if ret1 < - 180 then ret1 + 360 else ret1)
      in ret2)"

text \<open>
  The arithmetic of JavaScript numbers: the exact result of an addition or a subtraction
  is rounded to the nearest binary64 number, a tie going to the one whose last
  significand bit is even. \<open>round_ties_even\<close> rounds to an integer in that way.
\<close>

definition round_ties_even :: "real \<Rightarrow> int" where
  "round_ties_even y =
     (let f = \<lfloor>y\<rfloor>; d = y - of_int f
      in if d < 1 / 2 then f
         else if d > 1 / 2 then f + 1
         else if even f then f else f + 1)"

text \<open>
  The exponent at which a real number is rounded: that of its leading bit, and \<open>-1022\<close>
  for the subnormal numbers below \<open>2 powr (-1022)\<close>. The significand has 53 bits, so two
  neighbouring binary64 numbers at that exponent are \<open>ulp\<close> apart.
\<close>

definition binade :: "real \<Rightarrow> int" where
  "binade x = max \<lfloor>log 2 \<bar>x\<bar>\<rfloor> (- 1022)"

definition ulp :: "real \<Rightarrow> real" where
  "ulp x = 2 powr of_int (binade x - 52)"

text \<open>
  The binary64 number nearest to a real number. JavaScript gives an infinity once the
  magnitude of the exact result reaches \<open>2 ^ 1024 - 2 ^ 970\<close>; \<open>round64\<close> leaves that case
  out, and \<open>wrap_360\<close> does not get there from a finite number (lemma
  \<open>wrap_360_no_overflow\<close> below).
\<close>

definition round64 :: "real \<Rightarrow> real" where
  "round64 x = (if x = 0 then 0 else of_int (round_ties_even (x / ulp x)) * ulp x)"


definition max_double :: real where
  "max_double = (2 ^ 53 - 1) * 2 ^ 971"

definition wrap_360 :: "real \<Rightarrow> real" where
  "wrap_360 angle =
     (let ret0 = angle;
          ret1 = (if ret0 > 360 then round64 (ret0 - 360) else ret0);
          ret2 = (if ret1 < 0 then round64 (ret1 + 360) else ret1)
      in ret2)"

definition wrap_180 :: "real \<Rightarrow> real" where
  "wrap_180 angle =
     (let ret0 = angle;
          ret1 = (if ret0 > 180 then ret0 - 360 else ret0);
          ret2 = (if ret1 < - 180 then ret1 + 360 else ret1)
      in ret2)"

subsection \<open>Type Inference Engine\<close>

text \<open>
  The engine is part of the Python backend (\<open>_infer_message_types\<close> of
  \<open>backend/application/use_cases/chat_use_case.py\<close>, as \<open>src/AGENT_BUILDING.md\<close> names
  it), which is not among the source files. Its definitions below follow section 4.2 of
  the specification.
\<close>

type_synonym type_tag = string

type_synonym keyword_table = "(string \<times> type_tag list) list"

text \<open>
  Modelled from the spec: the insertion into the ordered set of type tags that
  \<open>infer\<close> returns (the backend's set type is missing). A tag already present stays
  where it was first seen (``duplicates removed, first-seen order preserved'').
\<close>

definition add_tag :: "type_tag list \<Rightarrow> type_tag \<Rightarrow> type_tag list" where
  "add_tag seen t = (if t \<in> set seen then seen else seen @ [t])"

text \<open>
  Modelled from the spec: the lookup in the keyword-to-type table (the backend's table
  and its matching code are missing). Every row whose keyword is recognised in the
  question contributes its tags, row after row (``multiple keyword hits contribute
  multiple type tags''). The specification does not say how a keyword is recognised in
  the text (token or substring, letter case), so the recogniser \<open>occurs\<close> is a
  parameter, as is the table.
\<close>

definition keyword_hits ::
  "(string \<Rightarrow> string \<Rightarrow> bool) \<Rightarrow> keyword_table \<Rightarrow> string \<Rightarrow> type_tag list" where
  "keyword_hits occurs table questionText =
     concat (map snd (filter (\<lambda>row. occurs (fst row) questionText) table))"

text \<open>
  Modelled from the spec: \<open>infer(questionText)\<close>, missing with the backend. The tags
  of all keyword hits are inserted one by one into an empty ordered set. The function
  reads the table and the text and nothing else (``purely functional; no side
  effects''), so equal arguments give equal results at every call.
\<close>

definition infer ::
  "(string \<Rightarrow> string \<Rightarrow> bool) \<Rightarrow> keyword_table \<Rightarrow> string \<Rightarrow> type_tag list" where
  "infer occurs table questionText =
     foldl add_tag [] (keyword_hits occurs table questionText)"

text \<open>
  The position at which a tag first occurs in a sequence of hits; it is how the
  first-seen order is stated below.
\<close>

definition first_seen_at :: "'a list \<Rightarrow> 'a \<Rightarrow> nat" where
  "first_seen_at xs x = length (takeWhile (\<lambda>y. y \<noteq> x) xs)"

text \<open>
  One concrete recogniser, the keyword as a contiguous piece of the question, and the
  table that \<open>src/AGENT_BUILDING.md\<close> documents (``altitude'', ``GPS'', ``battery'',
  ``error''), for evaluating \<open>infer\<close> on examples.
\<close>

fun is_prefix_of :: "string \<Rightarrow> string \<Rightarrow> bool" where
  "is_prefix_of [] ys = True"
| "is_prefix_of (x # xs) [] = False"
| "is_prefix_of (x # xs) (y # ys) = (x = y \<and> is_prefix_of xs ys)"

fun occurs_in :: "string \<Rightarrow> string \<Rightarrow> bool" where
  "occurs_in kw [] = (kw = [])"
| "occurs_in kw (c # cs) = (is_prefix_of kw (c # cs) \<or> occurs_in kw cs)"

definition documented_table :: keyword_table where
  "documented_table =
     [(''altitude'', [''GPS_RAW_INT'', ''GLOBAL_POSITION_INT'']),
      (''gps'', [''GPS_RAW_INT'']),
      (''battery'', [''BATTERY_STATUS'']),
      (''error'', [''STATUSTEXT''])]"

subsection \<open>Conversation State Machine\<close>

text \<open>
  The \<open>Conversation\<close> entity (\<open>backend/domain/entities/conversation.py\<close>) is not among
  the source files either. The definitions below follow sections 3 and 4.5 of the
  specification.
\<close>

datatype role = User | Agent

record turn =
  turn_role :: role
  turn_text :: string
  turn_timestamp :: nat

datatype conversation_state = NEW | ACTIVE | AWAITING_CLARIFICATION

text \<open>
  Modelled from the spec: the \<open>Conversation\<close> entity, missing with the backend. Its
  attributes are the ones of section 3: the identity, the ordered sequence of turns,
  the optionally bound FlightLog identity and the pending-clarification flag.
\<close>

record conversation =
  conv_id :: string
  turns :: "turn list"
  bound_log :: "string option"
  pending_clarification :: bool

text \<open>
  Modelled from the spec: the creation of a Conversation by \<open>resolve\<close>, missing with the
  backend: no history, no bound log, nothing pending.
\<close>

definition new_conversation :: "string \<Rightarrow> conversation" where
  "new_conversation cid =
     \<lparr>conv_id = cid, turns = [], bound_log = None, pending_clarification = False\<rparr>"

text \<open>
  Modelled from the spec: the state of a Conversation, read off its attributes as
  section 4.5 describes the states (the backend's own representation is missing):
  \<open>AWAITING_CLARIFICATION\<close> while a clarification is pending, \<open>NEW\<close> with no history,
  \<open>ACTIVE\<close> with at least one turn and nothing pending.
\<close>

definition state_of :: "conversation \<Rightarrow> conversation_state" where
  "state_of c =
     (if pending_clarification c then AWAITING_CLARIFICATION
      else if turns c = [] then NEW
      else ACTIVE)"

text \<open>
  Modelled from the spec: \<open>appendTurn(conversation, role, text)\<close>, missing with the
  backend. The turn is appended at the end and nothing is refused. An agent turn sets
  the pending flag to the clarification flag it carries; a user turn leaves the flag as
  it is. The clarification flag the turn carries and the time of the turn are further
  arguments.
\<close>

definition appendTurn :: "conversation \<Rightarrow> role \<Rightarrow> string \<Rightarrow> bool \<Rightarrow> nat \<Rightarrow> conversation" where
  "appendTurn c r txt clarification now =
     c\<lparr>turns := turns c @ [\<lparr>turn_role = r, turn_text = txt, turn_timestamp = now\<rparr>],
       pending_clarification :=
         (if r = Agent then clarification else pending_clarification c)\<rparr>"

text \<open>
  The Conversations that can arise: a new one, one with its log bound again, and one
  with a further turn appended.
\<close>

inductive reachable :: "conversation \<Rightarrow> bool" where
  created: "reachable (new_conversation cid)"
| rebound: "reachable c \<Longrightarrow> reachable (c\<lparr>bound_log := Some lid\<rparr>)"
| appended: "reachable c \<Longrightarrow> reachable (appendTurn c r txt clarification now)"

section \<open>Properties\<close>

subsection \<open>The angle helpers\<close>

text \<open>In \<open>angle_diff\<close> the two corrections never both fire.\<close>

lemma angle_diff_cases:
  "angle_diff a b =
     (if a - b > 180 then a - b - 360 else if a - b < - 180 then a - b + 360 else a - b)"
  by (simp add: angle_diff_def Let_def)

text \<open>
  Claim C8. \<open>angle_diff\<close> is antisymmetric: swapping the two angles negates the result,
  for every pair of real numbers.
\<close>

theorem angle_diff_antisymmetric: "angle_diff angle1 angle2 = - angle_diff angle2 angle1"
  by (simp add: angle_diff_cases)

text \<open>
  Claim C9. \<open>wrap_180\<close> is \<open>angle_diff\<close> against a zero second argument, for every real
  number.
\<close>

theorem wrap_180_is_angle_diff_zero: "wrap_180 angle = angle_diff angle 0"
  by (simp add: wrap_180_def angle_diff_def)

subsection \<open>Rounding to binary64\<close>

text \<open>
  Rounding never crosses a multiple of the spacing at which it rounds. The bounds on
  \<open>wrap_360\<close> rest on that, with 0, 360 and \<open>max_double\<close> as the multiples.
\<close>

lemma ulp_pos: "0 < ulp x"
  by (simp add: ulp_def)

lemma rte_le: "y \<le> of_int n \<Longrightarrow> round_ties_even y \<le> n"
  unfolding round_ties_even_def Let_def by (auto; linarith)

lemma rte_ge: "of_int n \<le> y \<Longrightarrow> n \<le> round_ties_even y"
  unfolding round_ties_even_def Let_def by (auto; linarith)


lemma round64_le:
  assumes "x \<le> of_int n * ulp x"
  shows "round64 x \<le> of_int n * ulp x"
proof (cases "x = 0")
  case True
  then show ?thesis using assms by (simp add: round64_def)
next
  case False
  from assms have "x / ulp x \<le> of_int n"
    using ulp_pos [of x] by (simp add: pos_divide_le_eq)
  then have "round_ties_even (x / ulp x) \<le> n" by (rule rte_le)
  then have "of_int (round_ties_even (x / ulp x)) * ulp x \<le> of_int n * ulp x"
    using ulp_pos [of x] by simp
  then show ?thesis using False by (simp add: round64_def)
qed

lemma round64_ge:
  assumes "of_int n * ulp x \<le> x"
  shows "of_int n * ulp x \<le> round64 x"
proof (cases "x = 0")
  case True
  then show ?thesis using assms by (simp add: round64_def)
next
  case False
  from assms have "of_int n \<le> x / ulp x"
    using ulp_pos [of x] by (simp add: pos_le_divide_eq)
  then have "n \<le> round_ties_even (x / ulp x)" by (rule rte_ge)
  then have "of_int n * ulp x \<le> of_int (round_ties_even (x / ulp x)) * ulp x"
    using ulp_pos [of x] by simp
  then show ?thesis using False by (simp add: round64_def)
qed

lemma multiple_of_ulp:
  assumes "binade x \<le> 52 + j"
  shows "\<exists>n. of_int m * 2 powr of_int j = of_int n * ulp x"
proof -
  define k where "k = nat (52 + j - binade x)"
  have "(2::real) powr of_int j = 2 powr (of_int (int k)) * 2 powr of_int (binade x - 52)"
    using assms unfolding k_def by (simp flip: powr_add)
  also have "(2::real) powr (of_int (int k)) = of_int (2 ^ k)"
    by (simp add: powr_realpow)
  finally have "of_int m * 2 powr of_int j = of_int (m * 2 ^ k) * ulp x"
    by (simp add: ulp_def)
  then show ?thesis ..
qed

lemma round64_le_dyadic:
  assumes "x \<le> of_int m * 2 powr of_int j" and "binade x \<le> 52 + j"
  shows "round64 x \<le> of_int m * 2 powr of_int j"
proof -
  from multiple_of_ulp [OF assms(2), of m]
  obtain n where n: "of_int m * 2 powr of_int j = of_int n * ulp x" ..
  show ?thesis using round64_le [of x n] assms(1) unfolding n by simp
qed

lemma round64_ge_dyadic:
  assumes "of_int m * 2 powr of_int j \<le> x" and "binade x \<le> 52 + j"
  shows "of_int m * 2 powr of_int j \<le> round64 x"
proof -
  from multiple_of_ulp [OF assms(2), of m]
  obtain n where n: "of_int m * 2 powr of_int j = of_int n * ulp x" ..
  show ?thesis using round64_ge [of n x] assms(1) unfolding n by simp
qed

lemma binade_le:
  assumes "x \<noteq> 0" and "\<bar>x\<bar> < 2 powr of_int (k + 1)" and "- 1022 \<le> k"
  shows "binade x \<le> k"
proof -
  have "log 2 \<bar>x\<bar> < of_int (k + 1)" using assms(1,2) by (simp add: log_less_iff)
  then have "\<lfloor>log 2 \<bar>x\<bar>\<rfloor> \<le> k" by (simp add: floor_le_iff)
  then show ?thesis using assms(3) by (simp add: binade_def)
qed



lemma round64_nonneg: "0 \<le> x \<Longrightarrow> 0 \<le> round64 x"
  using round64_ge [of 0 x] by simp

lemma round64_nonpos: "x \<le> 0 \<Longrightarrow> round64 x \<le> 0"
  using round64_le [of x 0] by simp




lemma wrap_360_cases:
  "wrap_360 a =
     (if a > 360 then round64 (a - 360) else if a < 0 then round64 (a + 360) else a)"
  using round64_nonneg [of "a - 360"] by (auto simp: wrap_360_def Let_def)









lemma wrap_360_no_overflow:
  assumes "\<bar>angle\<bar> \<le> max_double"
  shows "\<bar>wrap_360 angle\<bar> \<le> max_double"
proof -
  have md: "max_double = of_int (2 ^ 53 - 1) * 2 powr of_int 971"
    by (simp add: max_double_def)
  have b: "binade x \<le> 52 + 971" if "\<bar>x\<bar> \<le> max_double" "x \<noteq> 0" for x
  proof -
    have "\<bar>x\<bar> < 2 powr of_int (1023 + 1)" using that(1) by (simp add: max_double_def)
    then have "binade x \<le> 1023" using that(2) by (intro binade_le) simp_all
    then show ?thesis by simp
  qed
  have up: "round64 x \<le> max_double" if "\<bar>x\<bar> \<le> max_double" for x
  proof (cases "x = 0")
    case True then show ?thesis by (simp add: round64_def max_double_def)
  next
    case False
    have "x \<le> of_int (2 ^ 53 - 1) * 2 powr of_int 971" using that md by simp
    from round64_le_dyadic [OF this b [OF that False]] show ?thesis using md by simp
  qed
  have lo: "- max_double \<le> round64 x" if "\<bar>x\<bar> \<le> max_double" for x
  proof (cases "x = 0")
    case True then show ?thesis by (simp add: round64_def max_double_def)
  next
    case False
    have "of_int (- (2 ^ 53 - 1)) * 2 powr of_int 971 \<le> x" using that md by simp
    from round64_ge_dyadic [OF this b [OF that False]] show ?thesis using md by simp
  qed
  have md360: "360 \<le> max_double" by (simp add: max_double_def)
  show ?thesis
    using assms md360 up [of "angle - 360"] lo [of "angle - 360"]
      up [of "angle + 360"] lo [of "angle + 360"]
    by (auto simp: wrap_360_cases abs_le_iff)
qed






subsection \<open>\<open>wrap_360\<close>\<close>




subsection \<open>Type inference\<close>

lemma first_seen_at_less: "x \<in> set xs \<Longrightarrow> first_seen_at xs x < length xs"
  unfolding first_seen_at_def by (induction xs) auto

lemma first_seen_at_append_old:
  "x \<in> set xs \<Longrightarrow> first_seen_at (xs @ ys) x = first_seen_at xs x"
  unfolding first_seen_at_def by (simp add: takeWhile_append1)

lemma first_seen_at_append_new: "x \<notin> set xs \<Longrightarrow> first_seen_at (xs @ [x]) x = length xs"
  unfolding first_seen_at_def by (induction xs) auto

lemma set_foldl_add_tag: "set (foldl add_tag [] xs) = set xs"
  by (induction xs rule: rev_induct) (auto simp: add_tag_def)

lemma distinct_foldl_add_tag: "distinct (foldl add_tag [] xs)"
  by (induction xs rule: rev_induct) (auto simp: add_tag_def set_foldl_add_tag)

lemma foldl_add_tag_step:
  "foldl add_tag [] (xs @ [x]) =
     (if x \<in> set xs then foldl add_tag [] xs else foldl add_tag [] xs @ [x])"
  by (simp add: add_tag_def set_foldl_add_tag)

text \<open>
  The tags come out in the order in which they first occur among the hits: their
  first positions increase strictly along the result.
\<close>

lemma first_seen_order:
  "sorted_wrt (<) (map (first_seen_at xs) (foldl add_tag [] xs))"
proof (induction xs rule: rev_induct)
  case Nil
  show ?case by simp
next
  case (snoc x xs)
  let ?r = "foldl add_tag [] xs"
  have same: "map (first_seen_at (xs @ [x])) ?r = map (first_seen_at xs) ?r"
    by (rule map_cong) (simp_all add: set_foldl_add_tag first_seen_at_append_old)
  show ?case
  proof (cases "x \<in> set xs")
    case True
    then show ?thesis using snoc same by (simp only: foldl_add_tag_step if_True)
  next
    case False
    have bound: "\<forall>n \<in> set (map (first_seen_at xs) ?r). n < length xs"
      by (auto simp: set_foldl_add_tag first_seen_at_less)
    have "map (first_seen_at (xs @ [x])) (foldl add_tag [] (xs @ [x])) =
            map (first_seen_at xs) ?r @ [length xs]"
      by (simp only: foldl_add_tag_step False if_False map_append same list.map
          first_seen_at_append_new [OF False])
    then show ?thesis using snoc bound
      by (simp only: sorted_wrt_append) simp
  qed
qed

text \<open>
  Claim C2. For every question text, \<open>infer\<close> returns an ordered set of type tags: no
  tag twice, exactly the tags of the rows whose keyword is recognised in the question,
  in the order in which they are first seen among the hits. Given a table none of whose
  rows has an empty tag list, the result is non-empty whenever some keyword of the
  table is recognised, and it is empty when none is. The result depends on the table
  and the text only, so repeated calls return the same ordered set.
\<close>

theorem infer_ordered_set:
  assumes rows: "\<forall>row \<in> set table. snd row \<noteq> []"
  shows "distinct (infer occurs table q)
    \<and> set (infer occurs table q) =
        (\<Union>row \<in> {row \<in> set table. occurs (fst row) q}. set (snd row))
    \<and> sorted_wrt (<) (map (first_seen_at (keyword_hits occurs table q)) (infer occurs table q))
    \<and> ((\<exists>row \<in> set table. occurs (fst row) q) \<longrightarrow> infer occurs table q \<noteq> [])
    \<and> ((\<forall>row \<in> set table. \<not> occurs (fst row) q) \<longrightarrow> infer occurs table q = [])"
proof -
  have s: "set (infer occurs table q) =
      (\<Union>row \<in> {row \<in> set table. occurs (fst row) q}. set (snd row))"
    by (auto simp: infer_def set_foldl_add_tag keyword_hits_def)
  have ne: "infer occurs table q \<noteq> []" if "\<exists>row \<in> set table. occurs (fst row) q"
  proof -
    from that obtain row where r: "row \<in> set table" "occurs (fst row) q" by blast
    with rows obtain t where "t \<in> set (snd row)" by (cases "snd row") auto
    with r have "t \<in> set (infer occurs table q)" unfolding s by blast
    then show ?thesis by auto
  qed
  have em: "infer occurs table q = []" if "\<forall>row \<in> set table. \<not> occurs (fst row) q"
  proof -
    have "set (infer occurs table q) = {}" unfolding s using that by blast
    then show ?thesis by simp
  qed
  show ?thesis
    using s ne em by (simp add: infer_def distinct_foldl_add_tag first_seen_order)
qed

theorem infer_ordered_set_witness:
  "infer occurs_in documented_table ''what was the highest gps altitude?'' =
     [''GPS_RAW_INT'', ''GLOBAL_POSITION_INT'']
   \<and> distinct (infer occurs_in documented_table ''what was the highest gps altitude?'')
   \<and> infer occurs_in documented_table ''what was the highest gps altitude?'' \<noteq> []
   \<and> infer occurs_in documented_table ''how long was the flight?'' = []"
proof -
  have rows: "\<forall>row \<in> set documented_table. snd row \<noteq> []"
    by (simp add: documented_table_def)
  have hit: "\<exists>row \<in> set documented_table.
      occurs_in (fst row) ''what was the highest gps altitude?''"
    by (simp add: documented_table_def)
  have v: "infer occurs_in documented_table ''what was the highest gps altitude?'' =
      [''GPS_RAW_INT'', ''GLOBAL_POSITION_INT'']"
    by (simp add: infer_def keyword_hits_def documented_table_def add_tag_def)
  have miss: "\<forall>row \<in> set documented_table.
      \<not> occurs_in (fst row) ''how long was the flight?''"
    by (simp add: documented_table_def)
  from infer_ordered_set [OF rows, of occurs_in "''what was the highest gps altitude?''"] hit
    infer_ordered_set [OF rows, of occurs_in "''how long was the flight?''"] miss v
  show ?thesis by simp
qed

subsection \<open>The conversation state machine\<close>

lemma state_of_agent_turn:
  "state_of (appendTurn c Agent txt clarification now) =
     (if clarification then AWAITING_CLARIFICATION else ACTIVE)"
  by (simp add: state_of_def appendTurn_def)

lemma state_of_user_turn:
  "state_of (appendTurn c User txt clarification now) =
     (if pending_clarification c then AWAITING_CLARIFICATION else ACTIVE)"
  by (simp add: state_of_def appendTurn_def)

text \<open>
  On every Conversation that can arise, a clarification is pending only after some
  turn, so \<open>NEW\<close> is exactly the state with no history.
\<close>

lemma reachable_pending_has_history:
  "reachable c \<Longrightarrow> pending_clarification c \<Longrightarrow> turns c \<noteq> []"
  by (induction rule: reachable.induct) (auto simp: new_conversation_def appendTurn_def)

lemma reachable_new_iff: "reachable c \<Longrightarrow> state_of c = NEW \<longleftrightarrow> turns c = []"
  using reachable_pending_has_history [of c] by (auto simp: state_of_def)

text \<open>
  Claim C6. \<open>appendTurn\<close> is always permitted: in every Conversation and for every role
  it appends the turn at the end of the history. An agent turn that carries no
  clarification flag takes the Conversation to \<open>ACTIVE\<close> from any state, so from
  \<open>AWAITING_CLARIFICATION\<close> and from \<open>NEW\<close>; an agent turn that carries the flag takes it
  to \<open>AWAITING_CLARIFICATION\<close> or leaves it there. No state is terminal: every
  Conversation, in particular every one that can arise, has an agent turn that leaves
  it in another state than the one it is in.
\<close>

theorem conversation_state_machine:
  "turns (appendTurn c r txt clarification now) =
      turns c @ [\<lparr>turn_role = r, turn_text = txt, turn_timestamp = now\<rparr>]
   \<and> state_of (appendTurn c Agent txt False now) = ACTIVE
   \<and> state_of (appendTurn c Agent txt True now) = AWAITING_CLARIFICATION
   \<and> (\<exists>flag. state_of (appendTurn c Agent txt flag now) \<noteq> state_of c)"
proof -
  have "\<exists>flag. state_of (appendTurn c Agent txt flag now) \<noteq> state_of c"
  proof (cases "state_of c = ACTIVE")
    case True
    then have "state_of (appendTurn c Agent txt True now) \<noteq> state_of c"
      by (simp add: state_of_agent_turn)
    then show ?thesis ..
  next
    case False
    then have "state_of (appendTurn c Agent txt False now) \<noteq> state_of c"
      by (simp add: state_of_agent_turn)
    then show ?thesis ..
  qed
  then show ?thesis
    by (simp add: state_of_agent_turn) (simp add: appendTurn_def)
qed

end
